theory Spec2Isabelle
  imports Complex_Main
begin

section \<open>Strings\<close>

text \<open>
  A Python \<open>str\<close> is a sequence of code points. The model covers the code points below
  256, one \<^typ>\<open>char\<close> each, so \<^const>\<open>length\<close> counts what Python's \<open>len\<close> counts.
  The character classes below are the tables of the Unicode database that the Python
  built-ins consult, restricted to that range.
\<close>

definition code :: "char \<Rightarrow> nat" where
  "code c = of_char c"

text \<open>\<open>char.isprintable()\<close>: every category but Other and Separator, and the ASCII space.\<close>

definition isprintable :: "char \<Rightarrow> bool" where
  "isprintable c =
     ((32 \<le> code c \<and> code c \<le> 126) \<or> (161 \<le> code c \<and> code c \<le> 172) \<or> 174 \<le> code c)"

text \<open>\<open>char.isspace()\<close>, the set that \<open>str.strip()\<close> without arguments removes.\<close>

definition isspace :: "char \<Rightarrow> bool" where
  "isspace c =
     ((9 \<le> code c \<and> code c \<le> 13) \<or> (28 \<le> code c \<and> code c \<le> 32) \<or> code c = 133 \<or> code c = 160)"

text \<open>\<open>char.isalnum()\<close>; the class \<open>\w\<close> of \<open>re\<close> on a \<open>str\<close> pattern is this and the underscore.\<close>

definition isalnum :: "char \<Rightarrow> bool" where
  "isalnum c =
     ((48 \<le> code c \<and> code c \<le> 57) \<or> (65 \<le> code c \<and> code c \<le> 90) \<or>
      (97 \<le> code c \<and> code c \<le> 122) \<or> code c = 170 \<or> code c = 178 \<or> code c = 179 \<or>
      code c = 181 \<or> code c = 185 \<or> code c = 186 \<or> (188 \<le> code c \<and> code c \<le> 190) \<or>
      (192 \<le> code c \<and> code c \<le> 214) \<or> (216 \<le> code c \<and> code c \<le> 246) \<or> 248 \<le> code c)"

definition re_word :: "char \<Rightarrow> bool" where
  "re_word c = (isalnum c \<or> c = CHR ''_'')"

text \<open>\<open>char.lower()\<close>: below 256 only A-Z and the accented capitals have a lower case.\<close>

definition lower_char :: "char \<Rightarrow> char" where
  "lower_char c =
     (if (65 \<le> code c \<and> code c \<le> 90) \<or> (192 \<le> code c \<and> code c \<le> 214) \<or>
         (216 \<le> code c \<and> code c \<le> 222)
      then char_of (code c + 32) else c)"

definition lower :: "string \<Rightarrow> string" where
  "lower s = map lower_char s"

definition endswith :: "string \<Rightarrow> string \<Rightarrow> bool" where
  "endswith s suffix = (length suffix \<le> length s \<and> drop (length s - length suffix) s = suffix)"

definition startswith :: "string \<Rightarrow> string \<Rightarrow> bool" where
  "startswith s prefix = (take (length prefix) s = prefix)"

text \<open>\<open>s.rstrip(chars)\<close>, \<open>s.lstrip()\<close> and \<open>s.strip()\<close>.\<close>

definition rstrip_char :: "char \<Rightarrow> string \<Rightarrow> string" where
  "rstrip_char c s = rev (dropWhile (\<lambda>x. x = c) (rev s))"

definition strip :: "string \<Rightarrow> string" where
  "strip s = rev (dropWhile isspace (rev (dropWhile isspace s)))"

text \<open>\<open>s.rfind(c)\<close>: the highest index of \<open>c\<close> in \<open>s\<close>, or \<open>-1\<close>.\<close>

fun rfind :: "string \<Rightarrow> char \<Rightarrow> int" where
  "rfind [] c = -1"
| "rfind (x # xs) c =
     (let r = rfind xs c in if 0 \<le> r then r + 1 else if x = c then 0 else -1)"

text \<open>\<open>str(n)\<close> of a non-negative integer, and \<open>int(s)\<close> of a string of decimal digits.\<close>

definition digit_char :: "nat \<Rightarrow> char" where
  "digit_char d = char_of (48 + d)"

fun str_nat :: "nat \<Rightarrow> string" where
  "str_nat n = (if n < 10 then [digit_char n] else str_nat (n div 10) @ [digit_char (n mod 10)])"

declare str_nat.simps [simp del]

definition isdigit :: "char \<Rightarrow> bool" where
  "isdigit c = (48 \<le> code c \<and> code c \<le> 57)"

definition int_str :: "string \<Rightarrow> nat option" where
  "int_str s =
     (if s \<noteq> [] \<and> list_all isdigit s
      then Some (foldl (\<lambda>a c. 10 * a + (code c - 48)) 0 s) else None)"

section \<open>Paths (\<open>os.path\<close> on POSIX)\<close>

definition sep :: char where
  "sep = CHR ''/''"

definition extsep :: char where
  "extsep = CHR ''.''"

definition basename :: "string \<Rightarrow> string" where
  "basename p = (let i = nat (rfind p sep + 1) in drop i p)"

definition dirname :: "string \<Rightarrow> string" where
  "dirname p =
     (let i = nat (rfind p sep + 1);
          head = take i p
      in if head \<noteq> [] \<and> head \<noteq> replicate (length head) sep then rstrip_char sep head else head)"

text \<open>
  The loop of \<open>genericpath._splitext\<close> that skips the leading dots of the file name:
  it answers whether some character in \<open>p[filenameIndex:dotIndex]\<close> is not a dot.
\<close>

function skip_dots :: "string \<Rightarrow> nat \<Rightarrow> nat \<Rightarrow> bool" where
  "skip_dots p filenameIndex dotIndex =
     (if filenameIndex < dotIndex
      then (if take 1 (drop filenameIndex p) \<noteq> [extsep] then True
            else skip_dots p (filenameIndex + 1) dotIndex)
      else False)"
  by pat_completeness auto
termination
  by (relation "measure (\<lambda>(p, filenameIndex, dotIndex). dotIndex - filenameIndex)") auto

declare skip_dots.simps [simp del]

definition splitext :: "string \<Rightarrow> string \<times> string" where
  "splitext p =
     (let sepIndex = rfind p sep;
          dotIndex = rfind p extsep
      in if dotIndex > sepIndex \<and> skip_dots p (nat (sepIndex + 1)) (nat dotIndex)
         then (take (nat dotIndex) p, drop (nat dotIndex) p)
         else (p, []))"

text \<open>\<open>os.path.join(a, b)\<close> with two arguments.\<close>

definition join :: "string \<Rightarrow> string \<Rightarrow> string" where
  "join a b =
     (if startswith b [sep] then b
      else if a = [] \<or> endswith a [sep] then a @ b
      else a @ [sep] @ b)"

section \<open>\<open>sanitize_filename\<close>\<close>

text \<open>\<open>re.sub(r'[^\w-]', '_', s)\<close>: every character outside the class becomes an underscore.\<close>

definition re_sub_non_word :: "string \<Rightarrow> string" where
  "re_sub_non_word s = map (\<lambda>c. if \<not> (re_word c \<or> c = CHR ''-'') then CHR ''_'' else c) s"

definition sanitize_filename :: "string \<Rightarrow> string" where
  "sanitize_filename filename =
     (let basename = basename filename;
          name_without_ext = fst (splitext basename);
          sanitized = re_sub_non_word name_without_ext
      in sanitized)"

section \<open>The environment of the program\<close>

text \<open>
  Coordinates are Python floats. The model leaves the number type open and takes the two
  float operations the program uses as parameters: subtraction and \<open>round(x, 2)\<close>.
  Nothing is assumed about them unless a theorem says so.

  An exception is modelled by \<open>str(e)\<close>, the text the program prints.
\<close>

type_synonym exn = string

text \<open>
  One entry of \<open>page.get_text("words")\<close>: the tuple
  \<open>(x0, y0, x1, y1, "word", block_no, line_no, word_no)\<close>, of which the program reads
  the first five components.
\<close>

record 'n word_tuple =
  w0 :: 'n
  w1 :: 'n
  w2 :: 'n
  w3 :: 'n
  w4 :: string

record 'n fitz_page =
  rect_height :: 'n
  rect_width :: 'n
  get_text_words :: "'n word_tuple list"

text \<open>
  An opened document: entry \<open>i\<close> is what \<open>doc.load_page(i)\<close> and the reads of that
  page give, either the page or the exception raised there.
\<close>

type_synonym 'n document = "(exn + 'n fitz_page) list"

text \<open>The output: \<open>{"text": ..., "bbox": [...]}\<close> and \<open>{"page": ..., "width": ..., ...}\<close>.\<close>

record 'n word_json =
  wtext :: string
  bbox :: "'n list"

record 'n page_json =
  page :: nat
  width :: 'n
  height :: 'n
  words :: "'n word_json list"

type_synonym 'n json_data = "(string \<times> 'n page_json) list"

text \<open>
  \<open>d[k] = v\<close> on a Python dict, which keeps insertion order: an existing key keeps its
  place, a new key goes last.
\<close>

fun dict_set :: "('k \<times> 'v) list \<Rightarrow> 'k \<Rightarrow> 'v \<Rightarrow> ('k \<times> 'v) list" where
  "dict_set [] k v = [(k, v)]"
| "dict_set ((k', v') # d) k v = (if k' = k then (k, v) # d else (k', v') # dict_set d k v)"

text \<open>
  What the program cannot decide: the float operations, whether \<open>fitz.open\<close> succeeds
  and with which document, whether \<open>open(path, 'w')\<close> and \<open>json.dump\<close> raise, and
  whether \<open>os.remove\<close> raises \<open>OSError\<close> on an existing file.
\<close>

record 'n env =
  fsub :: "'n \<Rightarrow> 'n \<Rightarrow> 'n"
  round2 :: "'n \<Rightarrow> 'n"
  fitz_open :: "string \<Rightarrow> exn + 'n document"
  open_w_error :: "string \<Rightarrow> exn option"
  json_dump_error :: "'n json_data \<Rightarrow> exn option"
  os_remove_error :: "string \<Rightarrow> bool"

text \<open>
  What the program changes: the file system (paths in order of creation), the documents
  that are open, and the lines printed.
\<close>

datatype 'n node = Dir | JsonFile "'n json_data" | PartialFile | OtherFile

record 'n world =
  fs :: "(string \<times> 'n node) list"
  open_docs :: "string list"
  stdout :: "string list"

definition print :: "string \<Rightarrow> 'n world \<Rightarrow> 'n world" where
  "print line w = w\<lparr>stdout := stdout w @ [line]\<rparr>"

definition os_path_exists :: "'n world \<Rightarrow> string \<Rightarrow> bool" where
  "os_path_exists w p = (map_of (fs w) p \<noteq> None)"

definition os_path_isfile :: "'n world \<Rightarrow> string \<Rightarrow> bool" where
  "os_path_isfile w p = (case map_of (fs w) p of None \<Rightarrow> False | Some Dir \<Rightarrow> False | Some _ \<Rightarrow> True)"

definition os_path_isdir :: "'n world \<Rightarrow> string \<Rightarrow> bool" where
  "os_path_isdir w p = (map_of (fs w) p = Some Dir)"

text \<open>\<open>os.listdir(d)\<close>: the names directly inside \<open>d\<close>.\<close>

definition os_listdir :: "'n world \<Rightarrow> string \<Rightarrow> string list" where
  "os_listdir w d =
     map (\<lambda>p. drop (length d + 1) p)
       (filter (\<lambda>p. startswith p (d @ [sep]) \<and> length d + 1 < length p \<and>
                     sep \<notin> set (drop (length d + 1) p))
          (map fst (fs w)))"

text \<open>\<open>os.remove(p)\<close>: \<open>None\<close> is a raised \<open>OSError\<close>.\<close>

definition os_remove :: "'n env \<Rightarrow> string \<Rightarrow> 'n world \<Rightarrow> 'n world option" where
  "os_remove e p w =
     (case map_of (fs w) p of
        None \<Rightarrow> None
      | Some Dir \<Rightarrow> None
      | Some _ \<Rightarrow>
          if os_remove_error e p then None
          else Some (w\<lparr>fs := filter (\<lambda>(k, _). k \<noteq> p) (fs w)\<rparr>))"

definition squote :: "string \<Rightarrow> string" where
  "squote s = [CHR 0x27] @ s @ [CHR 0x27]"

text \<open>
  \<open>with open(output_filename, 'w', encoding='utf-8') as f: json.dump(json_data, f)\<close>.
  When \<open>open\<close> raises, nothing is created or changed; when \<open>json.dump\<close> raises, the
  file exists and is incomplete.
\<close>

definition write_json ::
  "'n env \<Rightarrow> string \<Rightarrow> 'n json_data \<Rightarrow> 'n world \<Rightarrow> exn option \<times> 'n world" where
  "write_json e output_filename json_data w =
     (case (if os_path_isdir w output_filename
            then Some (''[Errno 21] Is a directory: '' @ squote output_filename)
            else open_w_error e output_filename) of
        Some err \<Rightarrow> (Some err, w)
      | None \<Rightarrow>
          (case json_dump_error e json_data of
             Some err \<Rightarrow> (Some err, w\<lparr>fs := dict_set (fs w) output_filename PartialFile\<rparr>)
           | None \<Rightarrow> (None, w\<lparr>fs := dict_set (fs w) output_filename (JsonFile json_data)\<rparr>)))"

section \<open>\<open>pdf_to_word_json\<close>\<close>

definition clean_word :: "string \<Rightarrow> string" where
  "clean_word word_text = strip (filter isprintable word_text)"

text \<open>The loop over \<open>words_on_page\<close>; \<open>acc\<close> is \<open>word_list_for_json\<close>.\<close>

fun words_loop :: "'n env \<Rightarrow> 'n \<Rightarrow> 'n word_tuple list \<Rightarrow> 'n word_json list \<Rightarrow> 'n word_json list" where
  "words_loop e page_height [] acc = acc"
| "words_loop e page_height (w # ws) acc =
     (let x0 = w0 w; y0 = w1 w; x1 = w2 w; y1 = w3 w; word_text = w4 w;
          cleaned_word = clean_word word_text
      in if cleaned_word = [] then words_loop e page_height ws acc
         else
           let pdf_x0 = x0;
               pdf_y0 = fsub e page_height y1;
               pdf_x1 = x1;
               pdf_y1 = fsub e page_height y0
           in words_loop e page_height ws
                (acc @ [\<lparr>wtext = cleaned_word,
                         bbox = [round2 e pdf_x0, round2 e pdf_y0, round2 e pdf_x1, round2 e pdf_y1]\<rparr>]))"

text \<open>
  The body of the loop over the pages, for a page that loaded: the record stored under
  the page's key, then the store and the progress line.
\<close>

definition page_entry :: "'n env \<Rightarrow> nat \<Rightarrow> 'n fitz_page \<Rightarrow> 'n page_json" where
  "page_entry e page_num pg =
     (let page_height = rect_height pg;
          page_width = rect_width pg;
          words_on_page = get_text_words pg;
          word_list_for_json = words_loop e page_height words_on_page []
      in \<lparr>page = page_num + 1,
          width = round2 e page_width,
          height = round2 e page_height,
          words = word_list_for_json\<rparr>)"

definition process_page ::
  "'n env \<Rightarrow> nat \<Rightarrow> 'n fitz_page \<Rightarrow> 'n json_data \<Rightarrow> 'n world \<Rightarrow> 'n json_data \<times> 'n world" where
  "process_page e page_num pg json_data w =
     (let entry = page_entry e page_num pg
      in (dict_set json_data (str_nat (page_num + 1)) entry,
          print (''  - Page '' @ str_nat (page_num + 1) @ '': Found '' @
                 str_nat (length (words entry)) @ '' words.'') w))"

text \<open>
  The loop over \<open>range(len(doc))\<close>, from \<open>page_num\<close> on; \<open>Inl\<close> is the exception that
  left the loop, with the world as it was then.
\<close>

fun pages_loop ::
  "'n env \<Rightarrow> 'n document \<Rightarrow> nat \<Rightarrow> 'n json_data \<Rightarrow> 'n world \<Rightarrow> (exn + 'n json_data) \<times> 'n world" where
  "pages_loop e [] page_num json_data w = (Inr json_data, w)"
| "pages_loop e (Inl err # rest) page_num json_data w = (Inl err, w)"
| "pages_loop e (Inr pg # rest) page_num json_data w =
     (case process_page e page_num pg json_data w of
        (json_data', w') \<Rightarrow> pages_loop e rest (page_num + 1) json_data' w')"

definition output_filename_of :: "string \<Rightarrow> string" where
  "output_filename_of pdf_path =
     (let pdf_dir = dirname pdf_path;
          pdf_basename = basename pdf_path;
          json_basename = fst (splitext pdf_basename) @ ''.json''
      in join pdf_dir json_basename)"

text \<open>The body of the \<open>try\<close>, after \<open>output_filename\<close> is computed.\<close>

definition try_body :: "'n env \<Rightarrow> string \<Rightarrow> 'n world \<Rightarrow> (exn + string) \<times> 'n world" where
  "try_body e pdf_path w =
     (let output_filename = output_filename_of pdf_path;
          s1 = print (''Processing '' @ squote pdf_path @ '' -> '' @ squote output_filename @ ''...'') w
      in case fitz_open e pdf_path of
           Inl err \<Rightarrow> (Inl err, s1)
         | Inr doc \<Rightarrow>
             let s2 = s1\<lparr>open_docs := pdf_path # open_docs s1\<rparr>
             in case pages_loop e doc 0 [] s2 of
                  (Inl err, s3) \<Rightarrow> (Inl err, s3)
                | (Inr json_data, s3) \<Rightarrow>
                    let s4 = s3\<lparr>open_docs := remove1 pdf_path (open_docs s3)\<rparr>
                    in case write_json e output_filename json_data s4 of
                         (Some err, s5) \<Rightarrow> (Inl err, s5)
                       | (None, s5) \<Rightarrow>
                           (Inr output_filename,
                            print (''Successfully created JSON: '' @ output_filename) s5))"

text \<open>The whole function: \<open>Some\<close> the output path, or \<open>None\<close> after the \<open>except\<close> branch.\<close>

definition pdf_to_word_json :: "'n env \<Rightarrow> string \<Rightarrow> 'n world \<Rightarrow> string option \<times> 'n world" where
  "pdf_to_word_json e pdf_path w =
     (let output_filename = output_filename_of pdf_path
      in case try_body e pdf_path w of
           (Inr out, w') \<Rightarrow> (Some out, w')
         | (Inl err, w') \<Rightarrow>
             let s1 = print (''Error processing '' @ pdf_path @ '': '' @ err) w'
             in (None,
                 if output_filename \<noteq> [] \<and> os_path_exists s1 output_filename
                 then (case os_remove e output_filename s1 of None \<Rightarrow> s1 | Some s2 \<Rightarrow> s2)
                 else s1))"

section \<open>The command line\<close>

definition str_join :: "string \<Rightarrow> string list \<Rightarrow> string" where
  "str_join s xs = (case xs of [] \<Rightarrow> [] | x # rest \<Rightarrow> foldl (\<lambda>a b. a @ s @ b) x rest)"

definition is_pdf_name :: "string \<Rightarrow> bool" where
  "is_pdf_name f = endswith (lower f) ''.pdf''"

text \<open>\<open>for pdf_file in pdf_files_found: pdf_to_word_json(pdf_file)\<close>.\<close>

fun process_found :: "'n env \<Rightarrow> string list \<Rightarrow> 'n world \<Rightarrow> 'n world" where
  "process_found e [] w = w"
| "process_found e (pdf_file # rest) w = process_found e rest (snd (pdf_to_word_json e pdf_file w))"

text \<open>The loop over \<open>sys.argv[1:]\<close>.\<close>

fun process_args :: "'n env \<Rightarrow> string list \<Rightarrow> 'n world \<Rightarrow> 'n world" where
  "process_args e [] w = w"
| "process_args e (pdf_path_arg # rest) w =
     (if os_path_isfile w pdf_path_arg \<and> is_pdf_name pdf_path_arg
      then process_args e rest (snd (pdf_to_word_json e pdf_path_arg w))
      else process_args e rest
             (print (''Skipping invalid path or non-PDF file: '' @ pdf_path_arg) w))"

text \<open>The script: the exit status and the world it leaves.\<close>

definition main :: "'n env \<Rightarrow> string list \<Rightarrow> 'n world \<Rightarrow> nat \<times> 'n world" where
  "main e argv w =
     (if length argv < 2 then
        let s1 = print ''Usage: python process_pdf.py <path_to_pdf_file1> [path_to_pdf_file2] ...'' w;
            default_dir = join ''chapters'' ''ancient-history'';
            s2 = print ([CHR 0x0A] @ ''No PDF path provided. Searching in default directory: '' @
                        squote default_dir) s1;
            s3 = (if os_path_isdir s2 default_dir then
                    let pdf_files_found =
                          map (\<lambda>f. join default_dir f) (filter is_pdf_name (os_listdir s2 default_dir))
                    in if pdf_files_found \<noteq> [] then
                         process_found e pdf_files_found
                           (print (''Found PDF files: '' @ str_join '', '' (map basename pdf_files_found)) s2)
                       else print (''No PDF files found in '' @ squote default_dir @ ''.'') s2
                  else print (''Default directory '' @ squote default_dir @ '' not found.'') s2)
        in (1, s3)
      else (0, process_args e (drop 1 argv) w))"

section \<open>A concrete environment\<close>

text \<open>
  An instance of the float operations on rationals: exact subtraction, and rounding to
  the nearest hundredth with ties to the even one, as \<open>round(x, 2)\<close> does on the exact
  value of its argument.
\<close>

definition round_half_even :: "rat \<Rightarrow> int" where
  "round_half_even x =
     (let f = \<lfloor>x\<rfloor>; d = x - of_int f
      in if d < 1 / 2 then f else if 1 / 2 < d then f + 1 else if even f then f else f + 1)"

definition py_round2 :: "rat \<Rightarrow> rat" where
  "py_round2 x = of_int (round_half_even (x * 100)) / 100"

text \<open>
  A page of height 792 with the word Hello, a token of a tab and a no-break space, and a
  token with a soft hyphen inside and spaces around; and a page without words.
\<close>

definition hello_page :: "rat fitz_page" where
  "hello_page =
     \<lparr>rect_height = 792, rect_width = 612,
      get_text_words =
        [\<lparr>w0 = 72, w1 = 100, w2 = 120, w3 = 115, w4 = ''Hello''\<rparr>,
         \<lparr>w0 = 130, w1 = 100, w2 = 131, w3 = 115, w4 = [CHR 0x09, CHR 0xA0]\<rparr>,
         \<lparr>w0 = 1121 / 8, w1 = 100, w2 = 180, w3 = 4613 / 40, w4 = '' wor'' @ [CHR 0xAD] @ ''ld ''\<rparr>]\<rparr>"

definition blank_page :: "rat fitz_page" where
  "blank_page = \<lparr>rect_height = 792, rect_width = 612, get_text_words = []\<rparr>"

text \<open>
  \<open>rome.pdf\<close> opens with two pages; the second page of \<open>torn.pdf\<close> fails to load;
  \<open>void.pdf\<close> does not open; files under \<open>locked/\<close> can be neither created nor removed;
  \<open>full.pdf\<close> has three pages, and writing a mapping of three pages fails half way, the
  disk being full.
\<close>

definition demo_env :: "rat env" where
  "demo_env =
     \<lparr>fsub = (\<lambda>a b. a - b),
      round2 = py_round2,
      fitz_open = (\<lambda>p.
        if p = ''chapters/ancient-history/rome.pdf'' then Inr [Inr hello_page, Inr blank_page]
        else if p = ''torn.pdf'' \<or> p = ''locked/torn.pdf'' then Inr [Inr hello_page, Inl ''bad page tree'']
        else if p = ''full.pdf'' then Inr [Inr blank_page, Inr blank_page, Inr blank_page]
        else Inl (''cannot open broken document'')),
      open_w_error = (\<lambda>p. if startswith p ''locked/'' then Some ''[Errno 13] Permission denied'' else None),
      json_dump_error = (\<lambda>d. if length d = 3 then Some ''[Errno 28] No space left on device'' else None),
      os_remove_error = (\<lambda>p. startswith p ''locked/'')\<rparr>"

definition demo_world :: "rat world" where
  "demo_world =
     \<lparr>fs = [(''chapters'', Dir),
            (''chapters/ancient-history'', Dir),
            (''chapters/ancient-history/rome.pdf'', OtherFile),
            (''chapters/ancient-history/notes.txt'', OtherFile),
            (''torn.pdf'', OtherFile),
            (''torn.json'', OtherFile),
            (''full.pdf'', OtherFile),
            (''void.pdf'', OtherFile),
            (''void.json'', JsonFile []),
            (''locked'', Dir),
            (''locked/torn.pdf'', OtherFile),
            (''locked/torn.json'', OtherFile),
            (''locked/void.pdf'', OtherFile),
            (''locked/void.json'', JsonFile [])],
      open_docs = [],
      stdout = []\<rparr>"

section \<open>Decimal strings\<close>

lemma code_digit_char: "d < 10 \<Longrightarrow> code (digit_char d) = 48 + d"
  by (simp add: code_def digit_char_def)

lemma isdigit_digit_char: "d < 10 \<Longrightarrow> isdigit (digit_char d)"
  by (simp add: isdigit_def code_digit_char)

lemma str_nat_digits: "list_all isdigit (str_nat n)"
proof (induction n rule: str_nat.induct)
  case (1 n)
  show ?case
  proof (cases "n < 10")
    case True
    then show ?thesis by (subst str_nat.simps) (simp add: isdigit_digit_char)
  next
    case False
    with 1 show ?thesis by (subst str_nat.simps) (simp add: isdigit_digit_char)
  qed
qed

lemma str_nat_nonempty: "str_nat n \<noteq> []"
  by (subst str_nat.simps) simp

lemma str_nat_value: "foldl (\<lambda>a c. 10 * a + (code c - 48)) 0 (str_nat n) = n"
proof (induction n rule: str_nat.induct)
  case (1 n)
  show ?case
  proof (cases "n < 10")
    case True
    then show ?thesis by (subst str_nat.simps) (simp add: code_digit_char)
  next
    case False
    with 1 show ?thesis by (subst str_nat.simps) (simp add: code_digit_char)
  qed
qed

lemma int_str_str_nat: "int_str (str_nat n) = Some n"
  by (simp add: int_str_def str_nat_digits str_nat_nonempty str_nat_value)

lemma str_nat_inj: "str_nat m = str_nat n \<Longrightarrow> m = n"
  by (metis int_str_str_nat option.inject)

section \<open>The loops over words and pages\<close>

lemma words_loop_acc:
  "words_loop e h ws acc =
     acc @ map (\<lambda>w. \<lparr>wtext = clean_word (w4 w),
                       bbox = [round2 e (w0 w), round2 e (fsub e h (w3 w)),
                               round2 e (w2 w), round2 e (fsub e h (w1 w))]\<rparr>)
             (filter (\<lambda>w. clean_word (w4 w) \<noteq> []) ws)"
  by (induction ws arbitrary: acc) (simp_all add: Let_def)

lemma dict_set_fresh: "k \<notin> fst ` set d \<Longrightarrow> dict_set d k v = d @ [(k, v)]"
  by (induction d) auto

lemma pages_loop_loaded:
  "fst ` set jd \<subseteq> str_nat ` {..n} \<Longrightarrow>
   fst (pages_loop e (map Inr pgs) n jd w) =
     Inr (jd @ map (\<lambda>(i, pg). (str_nat (i + 1), page_entry e i pg)) (zip [n..<n + length pgs] pgs))"
proof (induction pgs arbitrary: n jd w)
  case Nil
  then show ?case by simp
next
  case (Cons pg pgs)
  have fresh: "str_nat (n + 1) \<notin> fst ` set jd"
  proof
    assume "str_nat (n + 1) \<in> fst ` set jd"
    with Cons.prems obtain m where "m \<le> n" "str_nat (n + 1) = str_nat m" by auto
    then show False using str_nat_inj by fastforce
  qed
  have sub: "fst ` set (jd @ [(str_nat (n + 1), page_entry e n pg)]) \<subseteq> str_nat ` {..Suc n}"
    using Cons.prems by (auto simp: atMost_Suc)
  show ?case
    using Cons.IH [OF sub] fresh
    by (simp add: process_page_def Let_def dict_set_fresh upt_conv_Cons del: upt_Suc)
qed

section \<open>Paths and file names\<close>

lemma rfind_absent: "c \<notin> set s \<Longrightarrow> rfind s c = -1"
  by (induction s) (auto simp: Let_def)

lemma rfind_ge: "- 1 \<le> rfind s c"
  by (induction s) (auto simp: Let_def)

lemma rfind_present: "c \<in> set s \<Longrightarrow> 0 \<le> rfind s c"
  by (induction s) (auto simp: Let_def)

lemma rfind_split:
  "c \<in> set s \<Longrightarrow>
   take (nat (rfind s c)) s @ [c] @ drop (nat (rfind s c) + 1) s = s \<and>
   c \<notin> set (drop (nat (rfind s c) + 1) s)"
proof (induction s)
  case Nil
  then show ?case by simp
next
  case (Cons x xs)
  show ?case
  proof (cases "c \<in> set xs")
    case True
    then have "0 \<le> rfind xs c" by (rule rfind_present)
    with Cons.IH [OF True] show ?thesis
      by (simp add: Let_def nat_add_distrib)
  next
    case False
    with Cons.prems have "x = c" by simp
    with False show ?thesis by (simp add: Let_def rfind_absent)
  qed
qed

lemma basename_split:
  "\<exists>head. filename = head @ basename filename \<and> (head = [] \<or> last head = sep)"
proof (cases "sep \<in> set filename")
  case True
  from rfind_split [OF True] rfind_present [OF True]
  have "filename = (take (nat (rfind filename sep)) filename @ [sep]) @ basename filename"
    by (simp add: basename_def nat_add_distrib)
  then show ?thesis by (metis last_snoc)
next
  case False
  then show ?thesis by (simp add: basename_def rfind_absent)
qed

lemma basename_no_sep: "sep \<notin> set (basename filename)"
proof (cases "sep \<in> set filename")
  case True
  from rfind_split [OF True] rfind_present [OF True] show ?thesis
    by (simp add: basename_def nat_add_distrib)
next
  case False
  then show ?thesis by (auto simp: basename_def dest: in_set_dropD)
qed

lemma skip_dots_iff:
  "skip_dots p i j \<longleftrightarrow> (\<exists>k. i \<le> k \<and> k < j \<and> take 1 (drop k p) \<noteq> [extsep])"
proof (induction p i j rule: skip_dots.induct)
  case (1 p i j)
  show ?case
  proof (cases "i < j")
    case False
    then show ?thesis by (subst skip_dots.simps) auto
  next
    case True
    show ?thesis
    proof (cases "take 1 (drop i p) \<noteq> [extsep]")
      case True
      with \<open>i < j\<close> show ?thesis by (subst skip_dots.simps) auto
    next
      case False
      then have here: "take 1 (drop i p) = [extsep]" by simp
      have "skip_dots p i j = skip_dots p (i + 1) j"
        using \<open>i < j\<close> here by (subst skip_dots.simps) simp
      also have "\<dots> \<longleftrightarrow> (\<exists>k. i + 1 \<le> k \<and> k < j \<and> take 1 (drop k p) \<noteq> [extsep])"
        using "1.IH" \<open>i < j\<close> here by simp
      also have "\<dots> \<longleftrightarrow> (\<exists>k. i \<le> k \<and> k < j \<and> take 1 (drop k p) \<noteq> [extsep])"
        using here by (metis Suc_eq_plus1 Suc_leD Suc_leI le_neq_implies_less)
      finally show ?thesis .
    qed
  qed
qed

lemma skip_dots_prefix:
  assumes "j < length p"
  shows "skip_dots p 0 j \<longleftrightarrow> (\<exists>x \<in> set (take j p). x \<noteq> extsep)"
proof -
  have "take 1 (drop k p) = [p ! k]" if "k < j" for k
    using that assms by (simp add: take_Suc_conv_app_nth [of 0, simplified] hd_drop_conv_nth take_Suc)
  then have "skip_dots p 0 j \<longleftrightarrow> (\<exists>k < j. p ! k \<noteq> extsep)"
    by (auto simp: skip_dots_iff)
  also have "\<dots> \<longleftrightarrow> (\<exists>x \<in> set (take j p). x \<noteq> extsep)"
  proof
    assume "\<exists>k < j. p ! k \<noteq> extsep"
    then obtain k where k: "k < j" "p ! k \<noteq> extsep" by blast
    then have "take j p ! k \<in> set (take j p)" using assms by (intro nth_mem) simp
    with k show "\<exists>x \<in> set (take j p). x \<noteq> extsep" by auto
  next
    assume "\<exists>x \<in> set (take j p). x \<noteq> extsep"
    then obtain k where "k < length (take j p)" "take j p ! k \<noteq> extsep"
      by (auto simp: in_set_conv_nth)
    then have "k < j \<and> p ! k \<noteq> extsep" by simp
    then show "\<exists>k < j. p ! k \<noteq> extsep" by blast
  qed
  finally show ?thesis .
qed

lemma splitext_append: "fst (splitext p) @ snd (splitext p) = p"
  by (simp add: splitext_def Let_def)

lemma splitext_name:
  assumes "sep \<notin> set b"
  shows "if extsep \<in> set (dropWhile (\<lambda>c. c = extsep) b)
         then snd (splitext b) \<noteq> [] \<and> hd (snd (splitext b)) = extsep \<and>
              extsep \<notin> set (tl (snd (splitext b)))
         else snd (splitext b) = []"
proof (cases "extsep \<in> set b")
  case False
  then have "extsep \<notin> set (dropWhile (\<lambda>c. c = extsep) b)"
    by (meson set_dropWhileD)
  with False show ?thesis by (simp add: splitext_def Let_def rfind_absent assms)
next
  case True
  define d where "d = nat (rfind b extsep)"
  define A where "A = take d b"
  define R where "R = drop (d + 1) b"
  have pos: "0 \<le> rfind b extsep" using True by (rule rfind_present)
  from rfind_split [OF True] have b: "b = A @ extsep # R" and R: "extsep \<notin> set R"
    by (simp_all add: A_def R_def d_def)
  have "length (take d b) + 1 + length (drop (d + 1) b) = length b"
    using arg_cong [OF conjunct1 [OF rfind_split [OF True]], of length] by (simp add: d_def)
  then have d_lt: "d < length b" by (simp split: if_splits add: min_def)
  then have lenA: "length A = d" by (simp add: A_def)
  have gt: "rfind b extsep > rfind b sep" using pos assms by (simp add: rfind_absent)
  have sd: "skip_dots b (nat (rfind b sep + 1)) (nat (rfind b extsep)) \<longleftrightarrow> (\<exists>x \<in> set A. x \<noteq> extsep)"
    using skip_dots_prefix [OF d_lt] assms by (simp add: rfind_absent d_def A_def)
  have dropb: "drop d b = extsep # R" using b lenA by simp
  show ?thesis
  proof (cases "\<exists>x \<in> set A. x \<noteq> extsep")
    case True
    then obtain x where "x \<in> set A" "\<not> (x = extsep)" by blast
    then have "dropWhile (\<lambda>c. c = extsep) b = dropWhile (\<lambda>c. c = extsep) A @ extsep # R"
      unfolding b by (rule dropWhile_append1)
    then have "extsep \<in> set (dropWhile (\<lambda>c. c = extsep) b)" by simp
    moreover have "snd (splitext b) = extsep # R"
      using True gt sd dropb by (simp add: splitext_def Let_def d_def)
    ultimately show ?thesis using R by simp
  next
    case False
    then have "dropWhile (\<lambda>c. c = extsep) b = dropWhile (\<lambda>c. c = extsep) (extsep # R)"
      unfolding b by (intro dropWhile_append2) auto
    then have "extsep \<notin> set (dropWhile (\<lambda>c. c = extsep) b)"
      using R by (auto dest: set_dropWhileD)
    moreover have "snd (splitext b) = []"
      using False sd by (simp add: splitext_def Let_def)
    ultimately show ?thesis by simp
  qed
qed

section \<open>Frame and failure of the page loop\<close>

lemma map_of_dict_set: "map_of (dict_set d k v) = (map_of d)(k \<mapsto> v)"
  by (induction d) (auto simp: fun_eq_iff)

lemma process_page_frame:
  "fs (snd (process_page e n pg jd w)) = fs w \<and>
   open_docs (snd (process_page e n pg jd w)) = open_docs w"
  by (simp add: process_page_def print_def Let_def)

lemma pages_loop_frame:
  "fs (snd (pages_loop e doc n jd w)) = fs w \<and>
   open_docs (snd (pages_loop e doc n jd w)) = open_docs w"
proof (induction e doc n jd w rule: pages_loop.induct)
  case (3 e pg rest page_num json_data w)
  obtain jd' w' where pp: "process_page e page_num pg json_data w = (jd', w')"
    by (cases "process_page e page_num pg json_data w")
  with process_page_frame [of e page_num pg json_data w]
  have "fs w' = fs w" "open_docs w' = open_docs w" by simp_all
  with 3 [OF pp [symmetric]] pp show ?case by simp
qed simp_all

lemma pages_loop_error:
  "Inl err \<in> set doc \<Longrightarrow> \<exists>err'. fst (pages_loop e doc n jd w) = Inl err'"
proof (induction e doc n jd w rule: pages_loop.induct)
  case (3 e pg rest page_num json_data w)
  then show ?case by (cases "process_page e page_num pg json_data w") auto
qed simp_all

lemma pages_loop_Inr:
  "fst (pages_loop e doc n jd w) = Inr jd' \<Longrightarrow> \<exists>pgs. doc = map Inr pgs"
proof (induction e doc n jd w rule: pages_loop.induct)
  case (1 e page_num json_data w)
  then show ?case by simp
next
  case (2 e err rest page_num json_data w)
  then show ?case by simp
next
  case (3 e pg rest page_num json_data w)
  obtain jd1 w1 where pp: "process_page e page_num pg json_data w = (jd1, w1)"
    by (cases "process_page e page_num pg json_data w")
  with 3 obtain pgs where "rest = map Inr pgs" by auto
  then have "Inr pg # rest = map Inr (pg # pgs)" by simp
  then show ?case by (rule exI)
qed

section \<open>A successful extraction\<close>

lemma write_json_ok:
  "write_json e out jd w = (None, w') \<Longrightarrow>
   fs w' = dict_set (fs w) out (JsonFile jd) \<and> open_docs w' = open_docs w \<and> stdout w' = stdout w"
  by (auto simp: write_json_def split: if_splits option.splits)

lemma try_body_success:
  assumes "try_body e p w = (Inr out, s1)"
  shows "\<exists>pgs. fitz_open e p = Inr (map Inr pgs) \<and> out = output_filename_of p \<and>
           fs s1 = dict_set (fs w) out
             (JsonFile (map (\<lambda>(i, pg). (str_nat (i + 1), page_entry e i pg)) (zip [0..<length pgs] pgs))) \<and>
           open_docs s1 = open_docs w"
proof -
  define line where "line = ''Processing '' @ squote p @ '' -> '' @ squote (output_filename_of p) @ ''...''"
  define s2 where "s2 = (print line w)\<lparr>open_docs := p # open_docs (print line w)\<rparr>"
  obtain doc where doc: "fitz_open e p = Inr doc"
    using assms by (cases "fitz_open e p") (auto simp: try_body_def Let_def)
  obtain r s3 where pl: "pages_loop e doc 0 [] s2 = (r, s3)"
    by (cases "pages_loop e doc 0 [] s2")
  obtain jd where r: "r = Inr jd"
    using assms doc pl by (cases r) (auto simp: try_body_def Let_def s2_def line_def)
  define s4 where "s4 = s3\<lparr>open_docs := remove1 p (open_docs s3)\<rparr>"
  obtain wr s5 where wj: "write_json e (output_filename_of p) jd s4 = (wr, s5)"
    by (cases "write_json e (output_filename_of p) jd s4")
  have wr: "wr = None" and out: "out = output_filename_of p"
    and s1: "s1 = print (''Successfully created JSON: '' @ output_filename_of p) s5"
    using assms doc pl r wj
    by (cases wr; auto simp: try_body_def Let_def s2_def line_def s4_def)+
  from pl r obtain pgs where pgs: "doc = map Inr pgs"
    using pages_loop_Inr [of e doc 0 "[]" s2 jd] by auto
  have "fst (pages_loop e (map Inr pgs) 0 [] s2) =
          Inr ([] @ map (\<lambda>(i, pg). (str_nat (i + 1), page_entry e i pg)) (zip [0..<0 + length pgs] pgs))"
    by (rule pages_loop_loaded) simp
  with pl r pgs have jd: "jd = map (\<lambda>(i, pg). (str_nat (i + 1), page_entry e i pg)) (zip [0..<length pgs] pgs)"
    by simp
  from pages_loop_frame [of e doc 0 "[]" s2] pl
  have "fs s3 = fs w" "open_docs s3 = p # open_docs w"
    by (simp_all add: s2_def print_def)
  then have "fs s4 = fs w" "open_docs s4 = open_docs w" by (simp_all add: s4_def)
  with write_json_ok [OF wj [unfolded wr]] s1
  have "fs s1 = dict_set (fs w) (output_filename_of p) (JsonFile jd)" "open_docs s1 = open_docs w"
    by (simp_all add: print_def)
  with doc pgs out jd show ?thesis by blast
qed

lemma pdf_to_word_json_success:
  assumes "pdf_to_word_json e p w = (Some out, w')"
  shows "\<exists>pgs. fitz_open e p = Inr (map Inr pgs) \<and> out = output_filename_of p \<and>
           map_of (fs w') out =
             Some (JsonFile (map (\<lambda>(i, pg). (str_nat (i + 1), page_entry e i pg)) (zip [0..<length pgs] pgs))) \<and>
           open_docs w' = open_docs w"
proof -
  obtain r s1 where tb: "try_body e p w = (r, s1)" by (cases "try_body e p w")
  with assms have "r = Inr out" "s1 = w'"
    by (cases r; simp add: pdf_to_word_json_def Let_def)+
  with tb have "try_body e p w = (Inr out, w')" by simp
  from try_body_success [OF this] show ?thesis
    by (auto simp: map_of_dict_set)
qed

lemma entries_keys:
  "map fst (map (\<lambda>(i, pg). (str_nat (i + 1), f i pg)) (zip [0..<length pgs] pgs)) =
     map str_nat [1..<length pgs + 1]"
proof -
  define zs where "zs = zip [0..<length pgs] pgs"
  have "map fst (map (\<lambda>(i, pg). (str_nat (i + 1), f i pg)) zs) = map (\<lambda>x. str_nat (Suc (fst x))) zs"
    by (simp add: case_prod_unfold comp_def)
  also have "\<dots> = map (\<lambda>i. str_nat (Suc i)) (map fst zs)"
    by (simp only: map_map comp_def)
  also have "map fst zs = [0..<length pgs]" by (simp add: zs_def)
  also have "map (\<lambda>i. str_nat (Suc i)) [0..<length pgs] = map str_nat (map Suc [0..<length pgs])"
    by (simp only: map_map comp_def)
  also have "map Suc [0..<length pgs] = [1..<length pgs + 1]"
    by (simp add: map_Suc_upt del: upt_Suc)
  finally show ?thesis by (simp only: zs_def)
qed

lemma distinct_str_nat: "distinct (map str_nat [m..<n])"
  by (simp add: distinct_map inj_on_def str_nat_inj)

lemma entries_lookup:
  assumes "i < length pgs"
  shows "map_of (map (\<lambda>(i, pg). (str_nat (i + 1), f i pg)) (zip [0..<length pgs] pgs)) (str_nat (i + 1)) =
           Some (f i (pgs ! i))"
proof (rule map_of_is_SomeI)
  show "distinct (map fst (map (\<lambda>(i, pg). (str_nat (i + 1), f i pg)) (zip [0..<length pgs] pgs)))"
    unfolding entries_keys by (rule distinct_str_nat)
  have "(i, pgs ! i) \<in> set (zip [0..<length pgs] pgs)"
    using assms by (auto simp: set_zip intro!: exI [of _ i])
  then show "(str_nat (i + 1), f i (pgs ! i)) \<in>
        set (map (\<lambda>(i, pg). (str_nat (i + 1), f i pg)) (zip [0..<length pgs] pgs))"
    by force
qed

lemma all_dropWhile_iff: "(\<forall>x \<in> set (dropWhile P s). P x) \<longleftrightarrow> (\<forall>x \<in> set s. P x)"
  by (induction s) auto

lemma strip_empty_iff: "strip s = [] \<longleftrightarrow> list_all isspace s"
  by (simp add: strip_def dropWhile_eq_Nil_conv list_all_iff all_dropWhile_iff)

lemma clean_word_empty_iff:
  "clean_word t = [] \<longleftrightarrow> \<not> (\<exists>c \<in> set t. isprintable c \<and> \<not> isspace c)"
  by (auto simp: clean_word_def strip_empty_iff list_all_iff)

lemma clean_word_printable: "list_all isprintable (clean_word t)"
  by (auto simp: clean_word_def strip_def list_all_iff dest!: set_dropWhileD)

lemma strip_ends:
  "strip s \<noteq> [] \<Longrightarrow> \<not> isspace (hd (strip s)) \<and> \<not> isspace (last (strip s))"
proof -
  assume ne: "strip s \<noteq> []"
  define t where "t = dropWhile isspace s"
  define u where "u = dropWhile isspace (rev t)"
  have su: "strip s = rev u" by (simp add: strip_def t_def u_def)
  with ne have une: "u \<noteq> []" by simp
  then have "\<not> isspace (hd u)" unfolding u_def by (rule hd_dropWhile)
  then have l: "\<not> isspace (last (strip s))" using une by (simp add: su last_rev)
  from une have tne: "t \<noteq> []" by (auto simp: u_def)
  then have ht: "\<not> isspace (hd t)" unfolding t_def by (rule hd_dropWhile)
  obtain v where v: "rev t = v @ u"
    unfolding u_def by (metis takeWhile_dropWhile_id)
  then have "t = rev u @ rev v" by (metis rev_append rev_rev_ident)
  with une have "hd t = hd (rev u)" by simp
  with ht l show ?thesis by (simp add: su)
qed

lemma success_page:
  assumes "pdf_to_word_json e p w = (Some out, w')"
    and "fitz_open e p = Inr doc" and "i < length doc" and "doc ! i = Inr pg"
  shows "\<exists>json_data. map_of (fs w') out = Some (JsonFile json_data) \<and>
           map_of json_data (str_nat (i + 1)) = Some (page_entry e i pg)"
proof -
  from pdf_to_word_json_success [OF assms(1)] assms(2)
  obtain pgs where pgs: "doc = map Inr pgs"
    and f: "map_of (fs w') out =
      Some (JsonFile (map (\<lambda>(i, pg). (str_nat (i + 1), page_entry e i pg)) (zip [0..<length pgs] pgs)))"
    by auto
  from pgs assms(3,4) have i: "i < length pgs" and pg: "pgs ! i = pg" by auto
  from entries_lookup [OF i, of "page_entry e"] pg f show ?thesis by simp
qed

lemma words_page_entry:
  "words (page_entry e i pg) =
     map (\<lambda>w. \<lparr>wtext = clean_word (w4 w),
                 bbox = [round2 e (w0 w), round2 e (fsub e (rect_height pg) (w3 w)),
                         round2 e (w2 w), round2 e (fsub e (rect_height pg) (w1 w))]\<rparr>)
       (filter (\<lambda>w. clean_word (w4 w) \<noteq> []) (get_text_words pg))"
  by (simp add: page_entry_def Let_def words_loop_acc)

lemma demo_rome_result:
  "fst (pdf_to_word_json demo_env ''chapters/ancient-history/rome.pdf'' demo_world) =
     Some ''chapters/ancient-history/rome.json''"
  by code_simp

lemma demo_rome_open:
  "fitz_open demo_env ''chapters/ancient-history/rome.pdf'' = Inr [Inr hello_page, Inr blank_page]"
  by (simp add: demo_env_def)

lemma demo_rome_run:
  "pdf_to_word_json demo_env ''chapters/ancient-history/rome.pdf'' demo_world =
     (Some ''chapters/ancient-history/rome.json'',
      snd (pdf_to_word_json demo_env ''chapters/ancient-history/rome.pdf'' demo_world))"
  using demo_rome_result by (metis prod.collapse)

lemma wtext_page_entry:
  "map wtext (words (page_entry e i pg)) =
     map (\<lambda>w. strip (filter isprintable (w4 w)))
       (filter (\<lambda>w. \<exists>c \<in> set (w4 w). isprintable c \<and> \<not> isspace c) (get_text_words pg))"
  by (simp add: words_page_entry comp_def clean_word_empty_iff) (simp add: clean_word_def)

lemma wtext_page_entry_clean:
  "list_all (\<lambda>word. wtext word \<noteq> [] \<and> list_all isprintable (wtext word) \<and>
                      \<not> isspace (hd (wtext word)) \<and> \<not> isspace (last (wtext word)))
     (words (page_entry e i pg))"
proof -
  have "wtext word \<noteq> [] \<and> list_all isprintable (wtext word) \<and>
        \<not> isspace (hd (wtext word)) \<and> \<not> isspace (last (wtext word))"
    if "word \<in> set (words (page_entry e i pg))" for word
  proof -
    from that obtain t where t: "wtext word = clean_word t" "clean_word t \<noteq> []"
      by (auto simp: words_page_entry)
    then have "strip (filter isprintable t) \<noteq> []" by (simp add: clean_word_def)
    from strip_ends [OF this] t clean_word_printable [of t] show ?thesis
      by (simp add: clean_word_def)
  qed
  then show ?thesis by (simp add: list_all_iff)
qed

lemma round_half_even_bounds:
  "\<lfloor>x\<rfloor> \<le> round_half_even x \<and> round_half_even x \<le> \<lfloor>x\<rfloor> + 1"
  by (simp add: round_half_even_def Let_def)

lemma round_half_even_mono:
  assumes "x \<le> y"
  shows "round_half_even x \<le> round_half_even y"
proof (cases "\<lfloor>x\<rfloor> < \<lfloor>y\<rfloor>")
  case True
  have "round_half_even x \<le> \<lfloor>x\<rfloor> + 1" using round_half_even_bounds by blast
  also have "\<dots> \<le> \<lfloor>y\<rfloor>" using True by simp
  also have "\<dots> \<le> round_half_even y" using round_half_even_bounds by blast
  finally show ?thesis .
next
  case False
  moreover have "\<lfloor>x\<rfloor> \<le> \<lfloor>y\<rfloor>" using assms by (rule floor_mono)
  ultimately have eq: "\<lfloor>x\<rfloor> = \<lfloor>y\<rfloor>" by simp
  with assms have "x - of_int \<lfloor>x\<rfloor> \<le> y - of_int \<lfloor>y\<rfloor>" by simp
  with eq show ?thesis
    by (auto simp: round_half_even_def Let_def)
qed

lemma py_round2_mono: "mono py_round2"
proof (rule monoI)
  fix x y :: rat
  assume "x \<le> y"
  then have "x * 100 \<le> y * 100" by simp
  then have "round_half_even (x * 100) \<le> round_half_even (y * 100)"
    by (rule round_half_even_mono)
  then show "py_round2 x \<le> py_round2 y"
    by (simp add: py_round2_def divide_right_mono)
qed

lemma bbox_page_entry_ordered:
  fixes e :: "('n::order) env"
  assumes "mono (round2 e)" and "antimono (fsub e (rect_height pg))"
    and "list_all (\<lambda>w. w0 w \<le> w2 w \<and> w1 w \<le> w3 w) (get_text_words pg)"
  shows "list_all (\<lambda>word. bbox word ! 0 \<le> bbox word ! 2 \<and> bbox word ! 1 \<le> bbox word ! 3)
           (words (page_entry e i pg))"
proof -
  have "round2 e (w0 w) \<le> round2 e (w2 w) \<and>
        round2 e (fsub e (rect_height pg) (w3 w)) \<le> round2 e (fsub e (rect_height pg) (w1 w))"
    if "w \<in> set (get_text_words pg)" for w
  proof -
    from that assms(3) have o: "w0 w \<le> w2 w" "w1 w \<le> w3 w" by (auto simp: list_all_iff)
    from o(2) assms(2) have "fsub e (rect_height pg) (w3 w) \<le> fsub e (rect_height pg) (w1 w)"
      by (rule antimonoD [rotated])
    with o(1) assms(1) show ?thesis by (auto dest: monoD)
  qed
  then show ?thesis by (auto simp: words_page_entry list_all_iff)
qed

lemma map_of_filter_key: "map_of (filter (\<lambda>(k, _). k \<noteq> p) xs) = (map_of xs)(p := None)"
  by (induction xs) (auto simp: fun_eq_iff)

lemma try_body_open_failure:
  "fitz_open e p = Inl err \<Longrightarrow>
   try_body e p w =
     (Inl err, print (''Processing '' @ squote p @ '' -> '' @ squote (output_filename_of p) @ ''...'') w)"
  by (simp add: try_body_def Let_def)

lemma try_body_page_failure:
  assumes "fitz_open e p = Inr doc" and "Inl err \<in> set doc"
  shows "\<exists>err' s1. try_body e p w = (Inl err', s1) \<and> fs s1 = fs w \<and> open_docs s1 = p # open_docs w"
proof -
  define s2 where "s2 = (print (''Processing '' @ squote p @ '' -> '' @ squote (output_filename_of p) @ ''...'') w)
      \<lparr>open_docs := p # open_docs (print (''Processing '' @ squote p @ '' -> '' @ squote (output_filename_of p) @ ''...'') w)\<rparr>"
  obtain r s3 where pl: "pages_loop e doc 0 [] s2 = (r, s3)" by (cases "pages_loop e doc 0 [] s2")
  from pages_loop_error [OF assms(2), of e 0 "[]" s2] pl obtain err' where r: "r = Inl err'" by auto
  from pages_loop_frame [of e doc 0 "[]" s2] pl
  have "fs s3 = fs w" "open_docs s3 = p # open_docs w" by (simp_all add: s2_def print_def)
  moreover have "try_body e p w = (Inl err', s3)"
    using assms(1) pl r by (simp add: try_body_def Let_def s2_def)
  ultimately show ?thesis by blast
qed

lemma os_remove_result:
  "os_remove e p w =
     (if os_path_isfile w p \<and> \<not> os_remove_error e p
      then Some (w\<lparr>fs := filter (\<lambda>(k, _). k \<noteq> p) (fs w)\<rparr>) else None)"
  by (simp add: os_remove_def os_path_isfile_def split: option.splits node.splits)

lemma os_path_isfile_exists: "os_path_isfile w p \<Longrightarrow> os_path_exists w p"
  by (auto simp: os_path_isfile_def os_path_exists_def split: option.splits)

lemma endswith_append: "endswith b s \<Longrightarrow> endswith (a @ b) s"
  by (auto simp: endswith_def)

lemma join_endswith: "endswith b s \<Longrightarrow> endswith (join a b) s"
  using endswith_append [of b s a] endswith_append [of b s "a @ [sep]"]
  by (simp add: join_def)

lemma output_filename_json: "endswith (output_filename_of p) ''.json''"
  unfolding output_filename_of_def Let_def
  by (rule join_endswith) (simp add: endswith_def)

lemma output_filename_nonempty: "output_filename_of p \<noteq> []"
  using output_filename_json [of p] by (auto simp: endswith_def)

lemma pdf_to_word_json_failure:
  assumes "try_body e p w = (Inl err, s1)"
  shows "fst (pdf_to_word_json e p w) = None"
    and "stdout (snd (pdf_to_word_json e p w)) = stdout s1 @ [''Error processing '' @ p @ '': '' @ err]"
    and "open_docs (snd (pdf_to_word_json e p w)) = open_docs s1"
    and "map_of (fs (snd (pdf_to_word_json e p w))) =
           (if os_path_isfile s1 (output_filename_of p) \<and> \<not> os_remove_error e (output_filename_of p)
            then (map_of (fs s1))(output_filename_of p := None) else map_of (fs s1))"
  using assms
  by (auto simp: pdf_to_word_json_def Let_def os_remove_result print_def map_of_filter_key
      os_path_isfile_def os_path_exists_def output_filename_nonempty split: option.splits)

lemma pdf_to_word_json_ok:
  "try_body e p w = (Inr out, s1) \<Longrightarrow> pdf_to_word_json e p w = (Some (output_filename_of p), s1)"
  using try_body_success [of e p w out s1] by (auto simp: pdf_to_word_json_def Let_def)

lemma fs_print: "fs (print line w) = fs w"
  by (simp add: print_def)

lemma page_failure_leaves_document_open:
  assumes "fitz_open e p = Inr doc" and "Inl err \<in> set doc"
  shows "fst (pdf_to_word_json e p w) = None \<and>
         open_docs (snd (pdf_to_word_json e p w)) = p # open_docs w"
proof -
  from try_body_page_failure [OF assms, of w] obtain err' s1 where
    "try_body e p w = (Inl err', s1)" "open_docs s1 = p # open_docs w" by blast
  with pdf_to_word_json_failure(1,3) [of e p w err' s1] show ?thesis by simp
qed

lemma open_failure_opens_nothing:
  assumes "fitz_open e p = Inl err"
  shows "open_docs (snd (pdf_to_word_json e p w)) = open_docs w"
  using pdf_to_word_json_failure(3) [OF try_body_open_failure [OF assms, of w]]
  by (simp add: print_def)

lemma write_json_open_docs: "open_docs (snd (write_json e out jd w)) = open_docs w"
  by (simp add: write_json_def split: option.splits)

lemma loaded_document_is_closed:
  assumes "fitz_open e p = Inr (map Inr pgs)"
  shows "open_docs (snd (pdf_to_word_json e p w)) = open_docs w"
proof -
  define s2 where "s2 = (print (''Processing '' @ squote p @ '' -> '' @ squote (output_filename_of p) @ ''...'') w)
      \<lparr>open_docs := p # open_docs (print (''Processing '' @ squote p @ '' -> '' @ squote (output_filename_of p) @ ''...'') w)\<rparr>"
  obtain r s3 where pl: "pages_loop e (map Inr pgs) 0 [] s2 = (r, s3)"
    by (cases "pages_loop e (map Inr pgs) 0 [] s2")
  from pages_loop_loaded [of "[]" 0 e pgs s2] pl obtain jd where r: "r = Inr jd" by auto
  from pages_loop_frame [of e "map Inr pgs" 0 "[]" s2] pl
  have od: "open_docs s3 = p # open_docs w" by (simp add: s2_def print_def)
  define s4 where "s4 = s3\<lparr>open_docs := remove1 p (open_docs s3)\<rparr>"
  have s4: "open_docs s4 = open_docs w" by (simp add: s4_def od)
  obtain wr s5 where wj: "write_json e (output_filename_of p) jd s4 = (wr, s5)"
    by (cases "write_json e (output_filename_of p) jd s4")
  with write_json_open_docs [of e "output_filename_of p" jd s4] s4
  have s5: "open_docs s5 = open_docs w" by simp
  obtain res s6 where tb: "try_body e p w = (res, s6)" by (cases "try_body e p w")
  have "open_docs s6 = open_docs w"
    using tb assms pl r wj s5
    by (cases wr) (auto simp: try_body_def Let_def s2_def s4_def print_def)
  with tb show ?thesis
  proof (cases res)
    case (Inl err)
    with tb pdf_to_word_json_failure(3) [of e p w err s6] \<open>open_docs s6 = open_docs w\<close>
    show ?thesis by simp
  next
    case (Inr out)
    with tb pdf_to_word_json_ok [of e p w out s6] \<open>open_docs s6 = open_docs w\<close>
    show ?thesis by simp
  qed
qed

section \<open>The file name utility\<close>

text \<open>
  C7. \<open>sanitize_filename\<close> splits the file name into the directory part (empty, or ending
  in a slash), the root and the extension (the part from the last dot of the name on,
  when a dot stands after the leading dots of the name), and returns the root with every
  character that is not alphanumeric, an underscore or a hyphen replaced by an underscore.
\<close>

theorem sanitize_filename_spec:
  "\<exists>head root ext.
     filename = head @ root @ ext \<and>
     (head = [] \<or> last head = CHR ''/'') \<and>
     CHR ''/'' \<notin> set (root @ ext) \<and>
     (if CHR ''.'' \<in> set (dropWhile (\<lambda>c. c = CHR ''.'') (root @ ext))
      then ext \<noteq> [] \<and> hd ext = CHR ''.'' \<and> CHR ''.'' \<notin> set (tl ext)
      else ext = []) \<and>
     sanitize_filename filename =
       map (\<lambda>c. if isalnum c \<or> c = CHR ''_'' \<or> c = CHR ''-'' then c else CHR ''_'') root"
proof -
  obtain head where head: "filename = head @ basename filename" "head = [] \<or> last head = sep"
    using basename_split by blast
  define root where "root = fst (splitext (basename filename))"
  define ext where "ext = snd (splitext (basename filename))"
  have b: "root @ ext = basename filename"
    by (simp add: root_def ext_def splitext_append)
  have nosep: "sep \<notin> set (root @ ext)"
    unfolding b by (rule basename_no_sep)
  have "if extsep \<in> set (dropWhile (\<lambda>c. c = extsep) (basename filename))
        then ext \<noteq> [] \<and> hd ext = extsep \<and> extsep \<notin> set (tl ext) else ext = []"
    unfolding ext_def by (rule splitext_name) (rule basename_no_sep)
  then have e: "if extsep \<in> set (dropWhile (\<lambda>c. c = extsep) (root @ ext))
           then ext \<noteq> [] \<and> hd ext = extsep \<and> extsep \<notin> set (tl ext) else ext = []"
    by (simp only: b)
  have s: "sanitize_filename filename =
       map (\<lambda>c. if isalnum c \<or> c = CHR ''_'' \<or> c = CHR ''-'' then c else CHR ''_'') root"
    by (simp add: sanitize_filename_def re_sub_non_word_def re_word_def root_def Let_def)
  have "filename = head @ root @ ext" using head(1) b by simp
  with head(2) nosep e s show ?thesis
    unfolding sep_def extsep_def by blast
qed

theorem sanitize_filename_spec_witness:
  "sanitize_filename ''docs/v1.2/My File (v2).tar.gz'' = ''My_File__v2__tar'' \<and>
   sanitize_filename ''.pdf'' = ''_pdf''"
proof -
  from sanitize_filename_spec [of "''docs/v1.2/My File (v2).tar.gz''"]
  obtain head root ext where
    "''docs/v1.2/My File (v2).tar.gz'' = head @ root @ ext" by blast
  have "sanitize_filename ''docs/v1.2/My File (v2).tar.gz'' = ''My_File__v2__tar''"
    by code_simp
  moreover have "sanitize_filename ''.pdf'' = ''_pdf''"
    by code_simp
  ultimately show ?thesis by simp
qed

section \<open>The coordinate transform\<close>

text \<open>
  C1. After a successful extraction, the words of page \<open>i\<close> in the written mapping are,
  in order, the tokens of that page whose cleaned text is not empty, and the bbox of each
  is \<open>[x0, H - y1, x1, H - y0]\<close> with every coordinate rounded to two decimals, where
  \<open>H\<close> is the height of the page and \<open>(x0, y0, x1, y1)\<close> the box the library gave.
\<close>

theorem bbox_flip_law:
  assumes "pdf_to_word_json e pdf_path w = (Some out, w')"
    and "fitz_open e pdf_path = Inr doc" and "i < length doc" and "doc ! i = Inr pg"
  shows "\<exists>json_data entry.
           map_of (fs w') out = Some (JsonFile json_data) \<and>
           map_of json_data (str_nat (i + 1)) = Some entry \<and>
           list_all2
             (\<lambda>word w. bbox word =
                [round2 e (w0 w), round2 e (fsub e (rect_height pg) (w3 w)),
                 round2 e (w2 w), round2 e (fsub e (rect_height pg) (w1 w))])
             (words entry) (filter (\<lambda>w. clean_word (w4 w) \<noteq> []) (get_text_words pg))"
proof -
  from success_page [OF assms] obtain json_data where
    "map_of (fs w') out = Some (JsonFile json_data)"
    "map_of json_data (str_nat (i + 1)) = Some (page_entry e i pg)" by blast
  moreover have "list_all2
      (\<lambda>word w. bbox word =
         [round2 e (w0 w), round2 e (fsub e (rect_height pg) (w3 w)),
          round2 e (w2 w), round2 e (fsub e (rect_height pg) (w1 w))])
      (words (page_entry e i pg)) (filter (\<lambda>w. clean_word (w4 w) \<noteq> []) (get_text_words pg))"
    by (simp add: words_page_entry list_all2_map1 list_all2_same)
  ultimately show ?thesis by blast
qed

theorem bbox_flip_law_witness:
  "\<exists>json_data entry.
     map_of (fs (snd (pdf_to_word_json demo_env ''chapters/ancient-history/rome.pdf'' demo_world)))
       ''chapters/ancient-history/rome.json'' = Some (JsonFile json_data) \<and>
     map_of json_data ''1'' = Some entry \<and>
     map bbox (words entry) = [[72, 677, 120, 692], [3503 / 25, 16917 / 25, 180, 692]]"
proof -
  have run: "pdf_to_word_json demo_env ''chapters/ancient-history/rome.pdf'' demo_world =
      (Some ''chapters/ancient-history/rome.json'',
       snd (pdf_to_word_json demo_env ''chapters/ancient-history/rome.pdf'' demo_world))"
    using demo_rome_result by (metis prod.collapse)
  have one: "str_nat (0 + 1) = ''1''" by code_simp
  have kept: "filter (\<lambda>w. clean_word (w4 w) \<noteq> []) (get_text_words hello_page) =
      [\<lparr>w0 = 72, w1 = 100, w2 = 120, w3 = 115, w4 = ''Hello''\<rparr>,
       \<lparr>w0 = 1121 / 8, w1 = 100, w2 = 180, w3 = 4613 / 40, w4 = '' wor'' @ [CHR 0xAD] @ ''ld ''\<rparr>]"
    by code_simp
  have r1: "py_round2 72 = 72" "py_round2 677 = 677" "py_round2 120 = 120"
    "py_round2 692 = 692" "py_round2 (1121 / 8) = 3503 / 25"
    "py_round2 (27067 / 40) = 16917 / 25" "py_round2 180 = 180"
    by code_simp+
  from bbox_flip_law [OF run demo_rome_open, of 0 hello_page]
  obtain json_data entry where
    a: "map_of (fs (snd (pdf_to_word_json demo_env ''chapters/ancient-history/rome.pdf'' demo_world)))
       ''chapters/ancient-history/rome.json'' = Some (JsonFile json_data)"
    and b: "map_of json_data ''1'' = Some entry"
    and c: "list_all2
             (\<lambda>word w. bbox word =
                [round2 demo_env (w0 w), round2 demo_env (fsub demo_env (rect_height hello_page) (w3 w)),
                 round2 demo_env (w2 w), round2 demo_env (fsub demo_env (rect_height hello_page) (w1 w))])
             (words entry) (filter (\<lambda>w. clean_word (w4 w) \<noteq> []) (get_text_words hello_page))"
    unfolding one by auto
  from c have "map bbox (words entry) = [[72, 677, 120, 692], [3503 / 25, 16917 / 25, 180, 692]]"
    unfolding kept by (auto simp: list_all2_Cons2 demo_env_def hello_page_def r1)
  with a b show ?thesis by (intro exI [of _ json_data] exI [of _ entry] conjI)
qed

section \<open>The cleaning and the filter of words\<close>

text \<open>
  C4. After a successful extraction, the texts of the words of page \<open>i\<close> are, in order,
  the cleaned texts (the printable characters of the token, stripped of surrounding
  whitespace) of exactly those tokens that hold a printable character that is not
  whitespace: a token of whitespace and non-printable characters alone does not appear.
  Every text written is non-empty, printable, and neither starts nor ends with whitespace.
\<close>

theorem word_filter_law:
  assumes "pdf_to_word_json e pdf_path w = (Some out, w')"
    and "fitz_open e pdf_path = Inr doc" and "i < length doc" and "doc ! i = Inr pg"
  shows "\<exists>json_data entry.
           map_of (fs w') out = Some (JsonFile json_data) \<and>
           map_of json_data (str_nat (i + 1)) = Some entry \<and>
           map wtext (words entry) =
             map (\<lambda>w. strip (filter isprintable (w4 w)))
               (filter (\<lambda>w. \<exists>c \<in> set (w4 w). isprintable c \<and> \<not> isspace c) (get_text_words pg)) \<and>
           list_all (\<lambda>word. wtext word \<noteq> [] \<and> list_all isprintable (wtext word) \<and>
                            \<not> isspace (hd (wtext word)) \<and> \<not> isspace (last (wtext word)))
             (words entry)"
proof -
  from success_page [OF assms] obtain json_data where
    "map_of (fs w') out = Some (JsonFile json_data)"
    "map_of json_data (str_nat (i + 1)) = Some (page_entry e i pg)" by blast
  with wtext_page_entry [of e i pg] wtext_page_entry_clean [of e i pg]
  show ?thesis by blast
qed

theorem word_filter_law_witness:
  "map w4 (get_text_words hello_page) = [''Hello'', [CHR 0x09, CHR 0xA0], '' wor'' @ [CHR 0xAD] @ ''ld ''] \<and>
   (\<exists>json_data entry.
     map_of (fs (snd (pdf_to_word_json demo_env ''chapters/ancient-history/rome.pdf'' demo_world)))
       ''chapters/ancient-history/rome.json'' = Some (JsonFile json_data) \<and>
     map_of json_data ''1'' = Some entry \<and>
     map wtext (words entry) = [''Hello'', ''world''])"
proof -
  have one: "str_nat (0 + 1) = ''1''" by code_simp
  have texts: "map (\<lambda>w. strip (filter isprintable (w4 w)))
      (filter (\<lambda>w. \<exists>c \<in> set (w4 w). isprintable c \<and> \<not> isspace c) (get_text_words hello_page)) =
      [''Hello'', ''world'']"
    by code_simp
  from word_filter_law [OF demo_rome_run demo_rome_open, of 0 hello_page]
  obtain json_data entry where
    a: "map_of (fs (snd (pdf_to_word_json demo_env ''chapters/ancient-history/rome.pdf'' demo_world)))
       ''chapters/ancient-history/rome.json'' = Some (JsonFile json_data)"
    and b: "map_of json_data ''1'' = Some entry"
    and c: "map wtext (words entry) = [''Hello'', ''world'']"
    unfolding one texts by auto
  have "map w4 (get_text_words hello_page) = [''Hello'', [CHR 0x09, CHR 0xA0], '' wor'' @ [CHR 0xAD] @ ''ld '']"
    by (simp add: hello_page_def)
  with a b c show ?thesis by (intro conjI exI [of _ json_data] exI [of _ entry])
qed

section \<open>The keys of the output\<close>

text \<open>
  C3. After a successful extraction of a document of \<open>N\<close> pages, the written mapping has
  exactly \<open>N\<close> keys, in order the decimal strings of 1 to \<open>N\<close>, all different, and the
  \<open>page\<close> field of each record is its key read as an integer.
\<close>

theorem output_keys:
  assumes "pdf_to_word_json e pdf_path w = (Some out, w')"
    and "fitz_open e pdf_path = Inr doc"
  shows "\<exists>json_data.
           map_of (fs w') out = Some (JsonFile json_data) \<and>
           length json_data = length doc \<and>
           map fst json_data = map str_nat [1..<length doc + 1] \<and>
           distinct (map fst json_data) \<and>
           list_all (\<lambda>(key, entry). int_str key = Some (page entry)) json_data"
proof -
  from pdf_to_word_json_success [OF assms(1)] assms(2)
  obtain pgs where pgs: "doc = map Inr pgs"
    and f: "map_of (fs w') out =
      Some (JsonFile (map (\<lambda>(i, pg). (str_nat (i + 1), page_entry e i pg)) (zip [0..<length pgs] pgs)))"
    by auto
  define json_data where
    "json_data = map (\<lambda>(i, pg). (str_nat (i + 1), page_entry e i pg)) (zip [0..<length pgs] pgs)"
  have len: "length json_data = length doc" by (simp add: json_data_def pgs)
  have keys: "map fst json_data = map str_nat [1..<length doc + 1]"
    unfolding json_data_def pgs using entries_keys [of "page_entry e" pgs] by simp
  have dist: "distinct (map fst json_data)"
    unfolding keys by (rule distinct_str_nat)
  have "list_all (\<lambda>(key, entry). int_str key = Some (page entry)) json_data"
    by (auto simp: json_data_def list_all_iff int_str_str_nat page_entry_def Let_def)
  with f len keys dist show ?thesis unfolding json_data_def by blast
qed

theorem output_keys_witness:
  "\<exists>json_data.
     map_of (fs (snd (pdf_to_word_json demo_env ''chapters/ancient-history/rome.pdf'' demo_world)))
       ''chapters/ancient-history/rome.json'' = Some (JsonFile json_data) \<and>
     length json_data = 2 \<and>
     map fst json_data = [''1'', ''2''] \<and>
     map (page \<circ> snd) json_data = [1, 2]"
proof -
  have keys: "map str_nat [1..<length [Inr hello_page, Inr blank_page :: exn + rat fitz_page] + 1] = [''1'', ''2'']"
    by code_simp
  have i1: "int_str ''1'' = Some 1" and i2: "int_str ''2'' = Some 2" by code_simp+
  from output_keys [OF demo_rome_run demo_rome_open]
  obtain json_data where
    a: "map_of (fs (snd (pdf_to_word_json demo_env ''chapters/ancient-history/rome.pdf'' demo_world)))
       ''chapters/ancient-history/rome.json'' = Some (JsonFile json_data)"
    and b: "length json_data = 2"
    and c: "map fst json_data = [''1'', ''2'']"
    and d: "list_all (\<lambda>(key, entry). int_str key = Some (page entry)) json_data"
    unfolding keys by auto
  from c obtain e1 e2 where "json_data = [(''1'', e1), (''2'', e2)]"
    by (auto simp: map_eq_Cons_conv)
  with d i1 i2 have "map (page \<circ> snd) json_data = [1, 2]" by simp
  with a b c show ?thesis by (intro conjI exI [of _ json_data])
qed

section \<open>The order of the written coordinates\<close>

text \<open>
  C5. Let rounding to two decimals be monotone and subtraction from the page height be
  antitone in the number subtracted, as they are for floats. After a successful
  extraction, if every token of page \<open>i\<close> has \<open>x0 \<le> x1\<close> and \<open>y0 \<le> y1\<close> in the box
  the library gave, every word written for that page has \<open>bbox[0] \<le> bbox[2]\<close> and
  \<open>bbox[1] \<le> bbox[3]\<close>.
\<close>

theorem bbox_ordered:
  fixes e :: "('n::order) env"
  assumes "pdf_to_word_json e pdf_path w = (Some out, w')"
    and "fitz_open e pdf_path = Inr doc" and "i < length doc" and "doc ! i = Inr pg"
    and "mono (round2 e)" and "antimono (fsub e (rect_height pg))"
    and "list_all (\<lambda>w. w0 w \<le> w2 w \<and> w1 w \<le> w3 w) (get_text_words pg)"
  shows "\<exists>json_data entry.
           map_of (fs w') out = Some (JsonFile json_data) \<and>
           map_of json_data (str_nat (i + 1)) = Some entry \<and>
           list_all (\<lambda>word. bbox word ! 0 \<le> bbox word ! 2 \<and> bbox word ! 1 \<le> bbox word ! 3)
             (words entry)"
proof -
  from success_page [OF assms(1-4)] obtain json_data where
    "map_of (fs w') out = Some (JsonFile json_data)"
    "map_of json_data (str_nat (i + 1)) = Some (page_entry e i pg)" by blast
  with bbox_page_entry_ordered [OF assms(5-7), of i] show ?thesis by blast
qed

theorem bbox_ordered_witness:
  "list_all (\<lambda>w. w0 w \<le> w2 w \<and> w1 w \<le> w3 w) (get_text_words hello_page) \<and>
   (\<exists>json_data entry.
     map_of (fs (snd (pdf_to_word_json demo_env ''chapters/ancient-history/rome.pdf'' demo_world)))
       ''chapters/ancient-history/rome.json'' = Some (JsonFile json_data) \<and>
     map_of json_data ''1'' = Some entry \<and>
     list_all (\<lambda>word. bbox word ! 0 \<le> bbox word ! 2 \<and> bbox word ! 1 \<le> bbox word ! 3)
       (words entry))"
proof -
  have one: "str_nat (0 + 1) = ''1''" by code_simp
  have m: "mono (round2 demo_env)" by (simp add: demo_env_def py_round2_mono)
  have a: "antimono (fsub demo_env (rect_height hello_page))"
    by (rule antimonoI) (simp add: demo_env_def)
  have o: "list_all (\<lambda>w. w0 w \<le> w2 w \<and> w1 w \<le> w3 w) (get_text_words hello_page)"
    by (simp add: hello_page_def)
  from bbox_ordered [OF demo_rome_run demo_rome_open _ _ m a o, of 0]
  have "\<exists>json_data entry.
     map_of (fs (snd (pdf_to_word_json demo_env ''chapters/ancient-history/rome.pdf'' demo_world)))
       ''chapters/ancient-history/rome.json'' = Some (JsonFile json_data) \<and>
     map_of json_data ''1'' = Some entry \<and>
     list_all (\<lambda>word. bbox word ! 0 \<le> bbox word ! 2 \<and> bbox word ! 1 \<le> bbox word ! 3)
       (words entry)"
    unfolding one by simp
  with o show ?thesis by (rule conjI)
qed

section \<open>The document on the failure paths\<close>

text \<open>
  C2. The document is closed when the call returns if it never opened, or if all its
  pages loaded (lemmas \<open>open_failure_opens_nothing\<close> and \<open>loaded_document_is_closed\<close>,
  the latter also when writing the output fails). When a page fails to load, the call
  returns with the document still open (lemma \<open>page_failure_leaves_document_open\<close>):
  here for a document whose second page fails.
\<close>

theorem document_left_open:
  "fitz_open demo_env ''torn.pdf'' = Inr [Inr hello_page, Inl ''bad page tree''] \<and>
   open_docs demo_world = [] \<and>
   fst (pdf_to_word_json demo_env ''torn.pdf'' demo_world) = None \<and>
   open_docs (snd (pdf_to_word_json demo_env ''torn.pdf'' demo_world)) = [''torn.pdf'']"
proof -
  have o: "fitz_open demo_env ''torn.pdf'' = Inr [Inr hello_page, Inl ''bad page tree'']"
    by (simp add: demo_env_def)
  have d: "open_docs demo_world = []" by (simp add: demo_world_def)
  from page_failure_leaves_document_open [OF o, of "''bad page tree''" demo_world] o d
  show ?thesis by simp
qed

section \<open>The cleanup after a failure\<close>

text \<open>
  C6, as the code has it. When the body of the \<open>try\<close> returns, the call returns the output
  path. When it raises, the call returns \<open>None\<close> and never raises itself, the last line
  printed names the input path and the error, and the path of the output is removed from
  the file system if a file is there and \<open>os.remove\<close> does not raise; when \<open>os.remove\<close>
  raises, the error is swallowed and the file system stays as the failure left it.
\<close>

theorem failure_cleanup:
  "case try_body e pdf_path w of
     (Inr out, s1) \<Rightarrow> pdf_to_word_json e pdf_path w = (Some (output_filename_of pdf_path), s1)
   | (Inl err, s1) \<Rightarrow>
       fst (pdf_to_word_json e pdf_path w) = None \<and>
       stdout (snd (pdf_to_word_json e pdf_path w)) =
         stdout s1 @ [''Error processing '' @ pdf_path @ '': '' @ err] \<and>
       map_of (fs (snd (pdf_to_word_json e pdf_path w))) =
         (if os_path_isfile s1 (output_filename_of pdf_path) \<and>
             \<not> os_remove_error e (output_filename_of pdf_path)
          then (map_of (fs s1))(output_filename_of pdf_path := None)
          else map_of (fs s1))"
proof (cases "try_body e pdf_path w")
  case (Pair res s1)
  show ?thesis
  proof (cases res)
    case (Inl err)
    with Pair pdf_to_word_json_failure [of e pdf_path w err s1] show ?thesis by simp
  next
    case (Inr out)
    with Pair pdf_to_word_json_ok [of e pdf_path w out s1] show ?thesis by simp
  qed
qed

theorem failure_cleanup_witness:
  "fst (pdf_to_word_json demo_env ''torn.pdf'' demo_world) = None \<and>
   last (stdout (snd (pdf_to_word_json demo_env ''torn.pdf'' demo_world))) =
     ''Error processing torn.pdf: bad page tree'' \<and>
   os_path_exists demo_world ''torn.json'' \<and>
   map_of (fs (snd (pdf_to_word_json demo_env ''torn.pdf'' demo_world))) ''torn.json'' = None"
proof -
  define s1 where "s1 = snd (try_body demo_env ''torn.pdf'' demo_world)"
  have "fst (try_body demo_env ''torn.pdf'' demo_world) = Inl ''bad page tree''" by code_simp
  then have tb: "try_body demo_env ''torn.pdf'' demo_world = (Inl ''bad page tree'', s1)"
    unfolding s1_def by (metis prod.collapse)
  have out: "output_filename_of ''torn.pdf'' = ''torn.json''" by code_simp
  have f: "os_path_isfile s1 ''torn.json''" unfolding s1_def by code_simp
  have r: "\<not> os_remove_error demo_env ''torn.json''" by (simp add: demo_env_def startswith_def)
  have x: "os_path_exists demo_world ''torn.json''" by code_simp
  from failure_cleanup [of demo_env "''torn.pdf''" demo_world]
  have "fst (pdf_to_word_json demo_env ''torn.pdf'' demo_world) = None \<and>
       stdout (snd (pdf_to_word_json demo_env ''torn.pdf'' demo_world)) =
         stdout s1 @ [''Error processing '' @ ''torn.pdf'' @ '': '' @ ''bad page tree''] \<and>
       map_of (fs (snd (pdf_to_word_json demo_env ''torn.pdf'' demo_world))) =
         (map_of (fs s1))(''torn.json'' := None)"
    unfolding tb using f r by (simp add: out)
  with x show ?thesis by simp
qed

theorem cleanup_counterexample:
  "fst (pdf_to_word_json demo_env ''locked/torn.pdf'' demo_world) = None \<and>
   output_filename_of ''locked/torn.pdf'' = ''locked/torn.json'' \<and>
   os_path_exists demo_world ''locked/torn.json'' \<and>
   os_path_exists (snd (pdf_to_word_json demo_env ''locked/torn.pdf'' demo_world)) ''locked/torn.json''"
  by code_simp

section \<open>A file that was at the output path before\<close>

text \<open>
  C10, as the code has it. When the document does not open, or one of its pages does not
  load, and a file is at the output path, the call returns \<open>None\<close> and that file is gone
  afterwards, every other path being as before, provided \<open>os.remove\<close> does not raise:
  when it raises, the error is swallowed and the file stays.
\<close>

theorem stale_output_deleted:
  assumes "(\<exists>err. fitz_open e pdf_path = Inl err) \<or>
           (\<exists>doc err. fitz_open e pdf_path = Inr doc \<and> Inl err \<in> set doc)"
    and "os_path_isfile w (output_filename_of pdf_path)"
    and "\<not> os_remove_error e (output_filename_of pdf_path)"
  shows "fst (pdf_to_word_json e pdf_path w) = None \<and>
         \<not> os_path_exists (snd (pdf_to_word_json e pdf_path w)) (output_filename_of pdf_path) \<and>
         map_of (fs (snd (pdf_to_word_json e pdf_path w))) =
           (map_of (fs w))(output_filename_of pdf_path := None)"
proof -
  from assms(1) obtain err s1 where tb: "try_body e pdf_path w = (Inl err, s1)" and fs: "fs s1 = fs w"
  proof
    assume "\<exists>err. fitz_open e pdf_path = Inl err"
    then obtain err where "fitz_open e pdf_path = Inl err" ..
    from try_body_open_failure [OF this, of w] that show thesis by (simp add: fs_print)
  next
    assume "\<exists>doc err. fitz_open e pdf_path = Inr doc \<and> Inl err \<in> set doc"
    then obtain doc err where "fitz_open e pdf_path = Inr doc" "Inl err \<in> set doc" by blast
    from try_body_page_failure [OF this, of w] that show thesis by blast
  qed
  from fs assms(2) have "os_path_isfile s1 (output_filename_of pdf_path)"
    by (simp add: os_path_isfile_def)
  with pdf_to_word_json_failure(1,4) [OF tb] assms(3) fs show ?thesis
    by (simp add: os_path_exists_def)
qed

theorem stale_output_deleted_witness:
  "fitz_open demo_env ''void.pdf'' = Inl ''cannot open broken document'' \<and>
   map_of (fs demo_world) ''void.json'' = Some (JsonFile []) \<and>
   fst (pdf_to_word_json demo_env ''void.pdf'' demo_world) = None \<and>
   map_of (fs (snd (pdf_to_word_json demo_env ''void.pdf'' demo_world))) ''void.json'' = None \<and>
   map_of (fs (snd (pdf_to_word_json demo_env ''void.pdf'' demo_world))) ''void.pdf'' = Some OtherFile"
proof -
  have o: "fitz_open demo_env ''void.pdf'' = Inl ''cannot open broken document''"
    by (simp add: demo_env_def)
  have out: "output_filename_of ''void.pdf'' = ''void.json''" by code_simp
  have f: "os_path_isfile demo_world ''void.json''" by code_simp
  have r: "\<not> os_remove_error demo_env ''void.json''" by (simp add: demo_env_def startswith_def)
  have m: "map_of (fs demo_world) ''void.json'' = Some (JsonFile [])"
    "map_of (fs demo_world) ''void.pdf'' = Some OtherFile" by (simp_all add: demo_world_def)
  from o have "(\<exists>err. fitz_open demo_env ''void.pdf'' = Inl err) \<or>
      (\<exists>doc err. fitz_open demo_env ''void.pdf'' = Inr doc \<and> Inl err \<in> set doc)" by simp
  from stale_output_deleted [OF this, of demo_world] f r o m show ?thesis
    by (simp add: out)
qed

theorem stale_output_counterexample:
  "fitz_open demo_env ''locked/void.pdf'' = Inl ''cannot open broken document'' \<and>
   output_filename_of ''locked/void.pdf'' = ''locked/void.json'' \<and>
   map_of (fs demo_world) ''locked/void.json'' = Some (JsonFile []) \<and>
   fst (pdf_to_word_json demo_env ''locked/void.pdf'' demo_world) = None \<and>
   map_of (fs (snd (pdf_to_word_json demo_env ''locked/void.pdf'' demo_world))) ''locked/void.json'' =
     Some (JsonFile [])"
  by code_simp

end
